theory Spec2Isabelle
  imports Main "HOL-Library.Word"
begin

unbundle bit_operations_syntax

section \<open>The CBOR-lite codec of \<^verbatim>\<open>cbor_lite.py\<close>\<close>

text \<open>
  Python integers are unbounded: they are \<open>int\<close>. The elements of a \<^verbatim>\<open>bytearray\<close> or
  \<^verbatim>\<open>bytes\<close> object are \<open>8 word\<close>. \<^verbatim>\<open>x >> n\<close> is \<open>drop_bit n x\<close>, \<^verbatim>\<open>x << n\<close> is
  \<open>push_bit n x\<close>, \<^verbatim>\<open>&\<close> and \<^verbatim>\<open>|\<close> are \<open>AND\<close> and \<open>OR\<close>. Every \<^verbatim>\<open>raise\<close> is a value
  \<open>Inl e\<close>; a method returns its result together with the state of its object, which
  Python leaves mutated also when the method raises.
\<close>

type_synonym byte = "8 word"

datatype error =
    NotEnoughInput
  | EncodingNotMinimal
  | BadAdditionalValue
  | UnsupportedByteLength int
  | ExpectedUnsignedInteger int
  | ExpectedNegativeInteger int
  | ExpectedArray int
  | ExpectedMap int
  | NotABoolean
  | NotSimpleBoolean
  | NotAByteString
  | NotATextString
  | NotCBOREncodedData
  | ValueError
  | TypeError
  | IndexError
  | UnicodeEncodeError

subsection \<open>Constant tables\<close>

definition Flag_none :: int where
  "Flag_none = 0"

definition Flag_requireMinimalEncoding :: int where
  "Flag_requireMinimalEncoding = push_bit 0 1"

definition Major_unsignedInteger :: int where
  "Major_unsignedInteger = 0"

definition Major_negativeInteger :: int where
  "Major_negativeInteger = push_bit 5 1"

definition Major_byteString :: int where
  "Major_byteString = push_bit 5 2"

definition Major_textString :: int where
  "Major_textString = push_bit 5 3"

definition Major_array :: int where
  "Major_array = push_bit 5 4"

definition Major_map :: int where
  "Major_map = push_bit 5 5"

definition Major_semantic :: int where
  "Major_semantic = push_bit 5 6"

definition Major_simple :: int where
  "Major_simple = push_bit 5 7"

definition Major_mask :: int where
  "Major_mask = 0xe0"

definition Minor_length1 :: int where
  "Minor_length1 = 24"

definition Minor_length2 :: int where
  "Minor_length2 = 25"

definition Minor_length4 :: int where
  "Minor_length4 = 26"

definition Minor_length8 :: int where
  "Minor_length8 = 27"

definition Minor_false :: int where
  "Minor_false = 20"

definition Minor_true :: int where
  "Minor_true = 21"

definition Minor_cborEncodedData :: int where
  "Minor_cborEncodedData = 24"

definition Minor_mask :: int where
  "Minor_mask = 0x1f"

subsection \<open>Byte-length calculator\<close>

text \<open>\<^verbatim>\<open>int.bit_length()\<close>: the number of bits of the absolute value.\<close>

fun bit_length_nat :: "nat \<Rightarrow> nat" where
  "bit_length_nat n = (if n = 0 then 0 else Suc (bit_length_nat (n div 2)))"

declare bit_length_nat.simps [simp del]

definition bit_length :: "int \<Rightarrow> int" where
  "bit_length v = int (bit_length_nat (nat \<bar>v\<bar>))"

definition get_byte_length :: "int \<Rightarrow> int" where
  "get_byte_length v = (if v < 24 then 0 else (bit_length v + 7) div 8)"

subsection \<open>Encoder\<close>

text \<open>
  The encoder's state is its \<^verbatim>\<open>buf\<close>. \<open>bind\<close> runs a second method on the state the
  first one left, unless the first one raised.
\<close>

type_synonym ('s, 'a) action = "'s \<Rightarrow> (error + 'a) \<times> 's"

definition bind :: "('s, 'a) action \<Rightarrow> ('a \<Rightarrow> ('s, 'b) action) \<Rightarrow> ('s, 'b) action" where
  "bind m f s = (case m s of (Inl e, s') \<Rightarrow> (Inl e, s') | (Inr a, s') \<Rightarrow> f a s')"

definition return :: "'a \<Rightarrow> ('s, 'a) action" where
  "return a s = (Inr a, s)"

definition raise :: "error \<Rightarrow> ('s, 'a) action" where
  "raise e s = (Inl e, s)"

text \<open>
  \<^verbatim>\<open>bytearray.append(x)\<close> takes an integer in \<^verbatim>\<open>range(256)\<close>: another integer is a
  \<^verbatim>\<open>ValueError\<close>, an object that is no integer (a \<^verbatim>\<open>bytes\<close> object) a \<^verbatim>\<open>TypeError\<close>.
\<close>

datatype pyval = PyInt int | PyBytes "byte list"

fun bytearray_append :: "pyval \<Rightarrow> (byte list, unit) action" where
  "bytearray_append (PyInt i) b =
     (if 0 \<le> i \<and> i < 256 then (Inr (), b @ [word_of_int i]) else (Inl ValueError, b))"
| "bytearray_append (PyBytes x) b = (Inl TypeError, b)"

fun appends :: "int list \<Rightarrow> (byte list, unit) action" where
  "appends [] b = (Inr (), b)"
| "appends (i # rest) b = bind (bytearray_append (PyInt i)) (\<lambda>_. appends rest) b"

definition encodeTagAndAdditional :: "int \<Rightarrow> int \<Rightarrow> (byte list, int) action" where
  "encodeTagAndAdditional tag additional =
     bind (bytearray_append (PyInt (tag + additional))) (\<lambda>_. return 1)"

definition encodeTagAndValue :: "int \<Rightarrow> int \<Rightarrow> (byte list, int) action" where
  "encodeTagAndValue tag v =
     (let len = get_byte_length v in
      bind
        (if 5 \<le> len \<and> len \<le> 8 then
           bind (encodeTagAndAdditional tag Minor_length8) (\<lambda>_.
             appends [drop_bit 56 v AND 0xff, drop_bit 48 v AND 0xff,
                      drop_bit 40 v AND 0xff, drop_bit 32 v AND 0xff,
                      drop_bit 24 v AND 0xff, drop_bit 16 v AND 0xff,
                      drop_bit 8 v AND 0xff, v AND 0xff])
         else if len = 3 \<or> len = 4 then
           bind (encodeTagAndAdditional tag Minor_length4) (\<lambda>_.
             appends [drop_bit 24 v AND 0xff, drop_bit 16 v AND 0xff,
                      drop_bit 8 v AND 0xff, v AND 0xff])
         else if len = 2 then
           bind (encodeTagAndAdditional tag Minor_length2) (\<lambda>_.
             appends [drop_bit 8 v AND 0xff, v AND 0xff])
         else if len = 1 then
           bind (encodeTagAndAdditional tag Minor_length1) (\<lambda>_.
             appends [v AND 0xff])
         else if len = 0 then
           bind (encodeTagAndAdditional tag v) (\<lambda>_. return ())
         else raise (UnsupportedByteLength len))
        (\<lambda>_. return (1 + len)))"

definition encodeUnsigned :: "int \<Rightarrow> (byte list, int) action" where
  "encodeUnsigned v = encodeTagAndValue Major_unsignedInteger v"

definition encodeNegative :: "int \<Rightarrow> (byte list, int) action" where
  "encodeNegative v = encodeTagAndValue Major_negativeInteger v"

definition encodeInteger :: "int \<Rightarrow> (byte list, int) action" where
  "encodeInteger v = (if v \<ge> 0 then encodeUnsigned v else encodeNegative v)"

definition encodeBool :: "bool \<Rightarrow> (byte list, int) action" where
  "encodeBool v = encodeTagAndValue Major_simple (if v then Minor_true else Minor_false)"

definition encodeBytes :: "byte list \<Rightarrow> (byte list, int) action" where
  "encodeBytes v =
     bind (encodeTagAndValue Major_byteString (int (length v))) (\<lambda>len b.
       (Inr (len + int (length v)), b @ v))"

definition encodeEncodedBytes :: "byte list \<Rightarrow> (byte list, int) action" where
  "encodeEncodedBytes v =
     bind (encodeTagAndValue Major_semantic Minor_cborEncodedData) (\<lambda>len.
       bind (encodeBytes v) (\<lambda>n. return (len + n)))"

text \<open>
  A \<^verbatim>\<open>str\<close> is the list of its code points. \<^verbatim>\<open>bytes(value, 'utf8')\<close> is its UTF-8
  encoding; a surrogate code point cannot be encoded.
\<close>

definition utf8_char :: "nat \<Rightarrow> error + byte list" where
  "utf8_char c =
     (if c < 0x80 then Inr [of_nat c]
      else if c < 0x800 then Inr [of_nat (0xC0 + c div 0x40), of_nat (0x80 + c mod 0x40)]
      else if 0xD800 \<le> c \<and> c < 0xE000 then Inl UnicodeEncodeError
      else if c < 0x10000 then
        Inr [of_nat (0xE0 + c div 0x1000), of_nat (0x80 + c div 0x40 mod 0x40),
             of_nat (0x80 + c mod 0x40)]
      else
        Inr [of_nat (0xF0 + c div 0x40000), of_nat (0x80 + c div 0x1000 mod 0x40),
             of_nat (0x80 + c div 0x40 mod 0x40), of_nat (0x80 + c mod 0x40)])"

fun utf8 :: "nat list \<Rightarrow> error + byte list" where
  "utf8 [] = Inr []"
| "utf8 (c # cs) =
     (case utf8_char c of
        Inl e \<Rightarrow> Inl e
      | Inr x \<Rightarrow> (case utf8 cs of Inl e \<Rightarrow> Inl e | Inr y \<Rightarrow> Inr (x @ y)))"

definition encodeText :: "nat list \<Rightarrow> (byte list, int) action" where
  "encodeText v =
     (let str_len = int (length v) in
      bind (encodeTagAndValue Major_textString str_len) (\<lambda>len.
        bind (\<lambda>b. case utf8 v of
                     Inl e \<Rightarrow> (Inl e, b)
                   | Inr x \<Rightarrow> bytearray_append (PyBytes x) b) (\<lambda>_.
          return (len + str_len))))"

definition encodeArraySize :: "int \<Rightarrow> (byte list, int) action" where
  "encodeArraySize v = encodeTagAndValue Major_array v"

definition encodeMapSize :: "int \<Rightarrow> (byte list, int) action" where
  "encodeMapSize v = encodeTagAndValue Major_map v"

subsection \<open>Decoder\<close>

text \<open>
  The cursor \<^verbatim>\<open>pos\<close> starts at 0 and is only ever increased, so it is a \<open>nat\<close>. An index
  read beyond the buffer is Python's \<^verbatim>\<open>IndexError\<close>.
\<close>

record decoder =
  buf :: "byte list"
  pos :: nat

definition CBORDecoder :: "byte list \<Rightarrow> decoder" where
  "CBORDecoder b = \<lparr>buf = b, pos = 0\<rparr>"

definition buf_at_pos :: "(decoder, int) action" where
  "buf_at_pos d =
     (if pos d < length (buf d) then (Inr (uint (buf d ! pos d)), d) else (Inl IndexError, d))"

definition decodeTagAndAdditional :: "int \<Rightarrow> (decoder, int \<times> int \<times> int) action" where
  "decodeTagAndAdditional flags d =
     (if pos d = length (buf d) then (Inl NotEnoughInput, d)
      else
        bind buf_at_pos (\<lambda>octet d'.
          (Inr (octet AND Major_mask, octet AND Minor_mask, 1), d'\<lparr>pos := pos d' + 1\<rparr>)) d)"

text \<open>The loop \<^verbatim>\<open>for shift in [...]: value |= self.buf[self.pos] << shift; self.pos += 1\<close>.\<close>

fun read_shifts :: "nat list \<Rightarrow> int \<Rightarrow> (decoder, int) action" where
  "read_shifts [] v d = (Inr v, d)"
| "read_shifts (shift # rest) v d =
     bind buf_at_pos (\<lambda>octet d'.
       read_shifts rest (v OR push_bit shift octet) (d'\<lparr>pos := pos d' + 1\<rparr>)) d"

definition check_minimal :: "int \<Rightarrow> int \<Rightarrow> int \<Rightarrow> (decoder, int \<times> int \<times> int) action" where
  "check_minimal flags tag v d =
     (if flags AND Flag_requireMinimalEncoding \<noteq> 0 \<and> v = 0 then (Inl EncodingNotMinimal, d)
      else (Inr (tag, v, int (pos d)), d))"

definition decodeTagAndValue :: "int \<Rightarrow> (decoder, int \<times> int \<times> int) action" where
  "decodeTagAndValue flags d =
     (let end = int (length (buf d)) in
      if int (pos d) = end then (Inl NotEnoughInput, d)
      else
        bind (decodeTagAndAdditional flags) (\<lambda>(tag, additional, len) d1.
          if additional < Minor_length1 then (Inr (tag, additional, len), d1)
          else if additional = Minor_length8 then
            (if end - int (pos d1) < 8 then (Inl NotEnoughInput, d1)
             else bind (read_shifts [56, 48, 40, 32, 24, 16, 8, 0] 0)
                    (check_minimal flags tag) d1)
          else if additional = Minor_length4 then
            (if end - int (pos d1) < 4 then (Inl NotEnoughInput, d1)
             else bind (read_shifts [24, 16, 8, 0] 0) (check_minimal flags tag) d1)
          else if additional = Minor_length2 then
            (if end - int (pos d1) < 2 then (Inl NotEnoughInput, d1)
             else bind (read_shifts [8, 0] 0) (check_minimal flags tag) d1)
          else if additional = Minor_length1 then
            (if end - int (pos d1) < 1 then (Inl NotEnoughInput, d1)
             else bind (bind buf_at_pos (\<lambda>octet d'.
                          (Inr (0 OR octet), d'\<lparr>pos := pos d' + 1\<rparr>)))
                    (check_minimal flags tag) d1)
          else (Inl BadAdditionalValue, d1)) d)"

definition decodeUnsigned :: "int \<Rightarrow> (decoder, int \<times> int) action" where
  "decodeUnsigned flags =
     bind (decodeTagAndValue flags) (\<lambda>(tag, v, len).
       if tag \<noteq> Major_unsignedInteger then raise (ExpectedUnsignedInteger tag)
       else return (v, len))"

definition decodeNegative :: "int \<Rightarrow> (decoder, int \<times> int) action" where
  "decodeNegative flags =
     bind (decodeTagAndValue flags) (\<lambda>(tag, v, len).
       if tag \<noteq> Major_negativeInteger then raise (ExpectedNegativeInteger tag)
       else return (v, len))"

text \<open>
  \<^verbatim>\<open>decodeInteger\<close> has no \<^verbatim>\<open>else\<close> branch: for another tag the method ends without a
  \<^verbatim>\<open>return\<close>, and its value is Python's \<^verbatim>\<open>None\<close>.
\<close>

definition decodeInteger :: "int \<Rightarrow> (decoder, (int \<times> int) option) action" where
  "decodeInteger flags =
     bind (decodeTagAndValue flags) (\<lambda>(tag, v, len).
       if tag = Major_unsignedInteger then return (Some (v, len))
       else if tag = Major_negativeInteger then return (Some (-1 - v, len))
       else return None)"

definition decodeBool :: "int \<Rightarrow> (decoder, bool \<times> int) action" where
  "decodeBool flags =
     bind (decodeTagAndValue flags) (\<lambda>(tag, v, len).
       if tag = Major_simple then
         (if v = Minor_true then return (True, len)
          else if v = Minor_false then return (False, len)
          else raise NotABoolean)
       else raise NotSimpleBoolean)"

definition decodeBytes :: "int \<Rightarrow> (decoder, byte list \<times> int) action" where
  "decodeBytes flags =
     bind (decodeTagAndValue flags) (\<lambda>(tag, byte_length, size_length) d.
       if tag \<noteq> Major_byteString then (Inl NotAByteString, d)
       else
         (let end = int (length (buf d)) in
          if end - int (pos d) < byte_length then (Inl NotEnoughInput, d)
          else
            (Inr (take (nat byte_length) (drop (pos d) (buf d)), size_length + byte_length),
             d\<lparr>pos := pos d + nat byte_length\<rparr>)))"

definition decodeEncodedBytes :: "int \<Rightarrow> (decoder, byte list \<times> int) action" where
  "decodeEncodedBytes flags =
     bind (decodeTagAndValue flags) (\<lambda>(tag, minor_tag, tag_length).
       if tag \<noteq> Major_semantic \<or> minor_tag \<noteq> Minor_cborEncodedData
       then raise NotCBOREncodedData
       else bind (decodeBytes flags) (\<lambda>(v, len). return (v, tag_length + len)))"

definition decodeText :: "int \<Rightarrow> (decoder, byte list \<times> int) action" where
  "decodeText flags =
     bind (decodeTagAndValue flags) (\<lambda>(tag, byte_length, size_length) d.
       if tag \<noteq> Major_textString then (Inl NotATextString, d)
       else
         (let end = int (length (buf d)) in
          if end - int (pos d) < byte_length then (Inl NotEnoughInput, d)
          else
            (Inr (take (nat byte_length) (drop (pos d) (buf d)), size_length + byte_length),
             d\<lparr>pos := pos d + nat byte_length\<rparr>)))"

definition decodeArraySize :: "int \<Rightarrow> (decoder, int \<times> int) action" where
  "decodeArraySize flags =
     bind (decodeTagAndValue flags) (\<lambda>(tag, v, len).
       if tag \<noteq> Major_array then raise (ExpectedArray tag) else return (v, len))"

text \<open>\<^verbatim>\<open>decodeMapSize\<close> compares the tag with \<^verbatim>\<open>Tag.Major.mask\<close>.\<close>

definition decodeMapSize :: "int \<Rightarrow> (decoder, int \<times> int) action" where
  "decodeMapSize flags =
     bind (decodeTagAndValue flags) (\<lambda>(tag, v, len).
       if tag \<noteq> Major_mask then raise (ExpectedMap tag) else return (v, len))"

subsection \<open>Notions the properties are stated with\<close>

text \<open>
  The big-endian bytes of a magnitude in a field of \<open>n\<close> bytes, and the value a sequence
  of bytes has when read big-endian: the first byte is the most significant one.
\<close>

fun be_bytes :: "nat \<Rightarrow> int \<Rightarrow> byte list" where
  "be_bytes 0 v = []"
| "be_bytes (Suc n) v = be_bytes n (v div 256) @ [word_of_int (v mod 256)]"

fun be_value :: "byte list \<Rightarrow> int" where
  "be_value [] = 0"
| "be_value (x # xs) = uint x * 256 ^ length xs + be_value xs"

text \<open>The shifts of a read loop over \<open>n\<close> bytes: \<open>8 * (n - 1)\<close> down to \<open>0\<close>.\<close>

fun shifts_of :: "nat \<Rightarrow> nat list" where
  "shifts_of 0 = []"
| "shifts_of (Suc n) = 8 * n # shifts_of n"

text \<open>
  A field of \<open>w\<close> bytes can hold a magnitude below \<open>256 ^ w\<close>; width 0 is the header
  octet itself, which can hold a magnitude below 24.
\<close>

definition fits :: "nat \<Rightarrow> int \<Rightarrow> bool" where
  "fits w v = (if w = 0 then v < 24 else v < 256 ^ w)"

text \<open>
  The width \<^verbatim>\<open>encodeTagAndValue\<close> emits: the number of bytes it appends after the header
  octet.
\<close>

definition emitted_width :: "int \<Rightarrow> int \<Rightarrow> byte list \<Rightarrow> nat" where
  "emitted_width tag v b = length (snd (encodeTagAndValue tag v b)) - length b - 1"

text \<open>The minor indicator of a header whose magnitude field has \<open>w\<close> bytes.\<close>

definition minor_for :: "nat \<Rightarrow> int \<Rightarrow> int" where
  "minor_for w v =
     (if w = 0 then v else if w = 1 then Minor_length1 else if w = 2 then Minor_length2
      else if w = 4 then Minor_length4 else Minor_length8)"

text \<open>The number of bytes a minor indicator from 24 to 27 announces.\<close>

definition read_width :: "int \<Rightarrow> nat" where
  "read_width a = (if a = 24 then 1 else if a = 25 then 2 else if a = 26 then 4 else 8)"

text \<open>
  Encoding a magnitude on a fresh encoder and decoding the bytes on a fresh decoder: the
  byte count the encoder returned, and the triple the decoder returned.
\<close>

definition roundtrip :: "int \<Rightarrow> int \<Rightarrow> int \<Rightarrow> (int \<times> int \<times> int \<times> int) option" where
  "roundtrip flags tag v =
     (case encodeTagAndValue tag v [] of
        (Inl e, _) \<Rightarrow> None
      | (Inr n, bytes) \<Rightarrow>
          (case decodeTagAndValue flags (CBORDecoder bytes) of
             (Inl e, _) \<Rightarrow> None
           | (Inr r, _) \<Rightarrow> Some (n, r)))"

section \<open>Properties\<close>

lemmas tag_defs =
  Flag_none_def Flag_requireMinimalEncoding_def
  Major_unsignedInteger_def Major_negativeInteger_def Major_byteString_def
  Major_textString_def Major_array_def Major_map_def Major_semantic_def
  Major_simple_def Major_mask_def
  Minor_length1_def Minor_length2_def Minor_length4_def Minor_length8_def
  Minor_false_def Minor_true_def Minor_cborEncodedData_def Minor_mask_def

subsection \<open>The byte length of a magnitude\<close>

lemma bit_length_nat_le: "bit_length_nat n \<le> k \<longleftrightarrow> n < 2 ^ k"
proof (induction n arbitrary: k rule: bit_length_nat.induct)
  case (1 n)
  show ?case
  proof (cases "n = 0")
    case True
    then show ?thesis by (simp add: bit_length_nat.simps)
  next
    case False
    show ?thesis
    proof (cases k)
      case 0
      with False show ?thesis by (simp add: bit_length_nat.simps [of n])
    next
      case (Suc j)
      have "bit_length_nat n \<le> Suc j \<longleftrightarrow> bit_length_nat (n div 2) \<le> j"
        using False by (simp add: bit_length_nat.simps [of n])
      also have "\<dots> \<longleftrightarrow> n div 2 < 2 ^ j"
        using 1 [OF False] .
      also have "\<dots> \<longleftrightarrow> n < 2 ^ Suc j"
        by auto
      finally show ?thesis using Suc by simp
    qed
  qed
qed

lemma bit_length_le: "0 \<le> v \<Longrightarrow> bit_length v \<le> int k \<longleftrightarrow> v < 2 ^ k"
  unfolding bit_length_def
  by (simp add: bit_length_nat_le nat_less_iff)

lemma byte_length_le:
  assumes "24 \<le> v"
  shows "get_byte_length v \<le> int k \<longleftrightarrow> v < 2 ^ (8 * k)"
proof -
  have "get_byte_length v \<le> int k \<longleftrightarrow> bit_length v \<le> int (8 * k)"
    using assms by (simp add: get_byte_length_def) linarith
  also have "\<dots> \<longleftrightarrow> v < 2 ^ (8 * k)"
    using assms by (intro bit_length_le) simp
  finally show ?thesis .
qed

lemma byte_length_small: "v < 24 \<Longrightarrow> get_byte_length v = 0"
  by (simp add: get_byte_length_def)

lemma byte_length_pos: "24 \<le> v \<Longrightarrow> 1 \<le> get_byte_length v"
  using byte_length_le [of v 0] by simp

subsection \<open>Appending bytes\<close>

lemma and_255_range: "0 \<le> (x::int) AND 255 \<and> x AND 255 < 256"
proof -
  have "x AND 255 \<le> 255" by (rule AND_upper2) simp
  then show ?thesis by simp
qed

lemma append_byte: "0 \<le> i \<Longrightarrow> i < 256 \<Longrightarrow> bytearray_append (PyInt i) b = (Inr (), b @ [word_of_int i])"
  by simp

lemma appends_masked:
  "appends (map (\<lambda>x. x AND 255) xs) b = (Inr (), b @ map (\<lambda>x. word_of_int (x AND 255)) xs)"
proof (induction xs arbitrary: b)
  case Nil
  show ?case by simp
next
  case (Cons x xs)
  show ?case using and_255_range [of x] by (simp add: bind_def Cons.IH)
qed

lemma header_ok:
  "0 \<le> tag + a \<Longrightarrow> tag + a < 256 \<Longrightarrow>
   encodeTagAndAdditional tag a b = (Inr 1, b @ [word_of_int (tag + a)])"
  by (simp add: encodeTagAndAdditional_def bind_def return_def)

lemma and_255_mod: "(x::int) AND 255 = x mod 256"
proof -
  have "x AND mask 8 = x mod 2 ^ 8"
    by (simp only: take_bit_eq_mask [symmetric] take_bit_eq_mod)
  then show ?thesis by (simp add: mask_eq_exp_minus_1)
qed

lemma be_bytes_step:
  "be_bytes (Suc n) v = be_bytes n (drop_bit 8 v) @ [word_of_int (v AND 255)]"
  by (simp add: and_255_mod drop_bit_eq_div)

lemma be_bytes_1: "be_bytes 1 v = [word_of_int (v AND 255)]"
  by (simp add: and_255_mod)

lemma be_bytes_2: "be_bytes 2 v = [word_of_int (drop_bit 8 v AND 255), word_of_int (v AND 255)]"
  unfolding numeral_2_eq_2 be_bytes_step by simp

lemma be_bytes_4:
  "be_bytes 4 v = [word_of_int (drop_bit 24 v AND 255), word_of_int (drop_bit 16 v AND 255),
                   word_of_int (drop_bit 8 v AND 255), word_of_int (v AND 255)]"
  (is "_ = ?r")
proof -
  have "be_bytes (Suc (Suc (Suc (Suc 0)))) v = ?r"
    unfolding be_bytes_step by simp
  then show ?thesis by (simp add: eval_nat_numeral)
qed

lemma be_bytes_8:
  "be_bytes 8 v = [word_of_int (drop_bit 56 v AND 255), word_of_int (drop_bit 48 v AND 255),
                   word_of_int (drop_bit 40 v AND 255), word_of_int (drop_bit 32 v AND 255),
                   word_of_int (drop_bit 24 v AND 255), word_of_int (drop_bit 16 v AND 255),
                   word_of_int (drop_bit 8 v AND 255), word_of_int (v AND 255)]"
  (is "_ = ?r")
proof -
  have "be_bytes (Suc (Suc (Suc (Suc (Suc (Suc (Suc (Suc 0)))))))) v = ?r"
    unfolding be_bytes_step by simp
  then show ?thesis by (simp add: eval_nat_numeral)
qed

lemma appends_1: "appends [v AND 255] b = (Inr (), b @ be_bytes 1 v)"
  unfolding be_bytes_1 using appends_masked [of "[v]" b] by simp

lemma appends_2: "appends [drop_bit 8 v AND 255, v AND 255] b = (Inr (), b @ be_bytes 2 v)"
  using appends_masked [of "[drop_bit 8 v, v]" b] by (simp add: be_bytes_2)

lemma appends_4:
  "appends [drop_bit 24 v AND 255, drop_bit 16 v AND 255, drop_bit 8 v AND 255, v AND 255] b =
   (Inr (), b @ be_bytes 4 v)"
  using appends_masked [of "[drop_bit 24 v, drop_bit 16 v, drop_bit 8 v, v]" b]
  by (simp add: be_bytes_4)

lemma appends_8:
  "appends [drop_bit 56 v AND 255, drop_bit 48 v AND 255, drop_bit 40 v AND 255,
            drop_bit 32 v AND 255, drop_bit 24 v AND 255, drop_bit 16 v AND 255,
            drop_bit 8 v AND 255, v AND 255] b =
   (Inr (), b @ be_bytes 8 v)"
  using appends_masked [of "[drop_bit 56 v, drop_bit 48 v, drop_bit 40 v, drop_bit 32 v,
                             drop_bit 24 v, drop_bit 16 v, drop_bit 8 v, v]" b]
  by (simp add: be_bytes_8)

lemma byte_length_1: "24 \<le> v \<Longrightarrow> v < 256 \<Longrightarrow> get_byte_length v = 1"
  using byte_length_le [of v 1] byte_length_le [of v 0] by simp

lemma byte_length_2: "256 \<le> v \<Longrightarrow> v < 65536 \<Longrightarrow> get_byte_length v = 2"
  using byte_length_le [of v 2] byte_length_le [of v 1] by simp

lemma byte_length_3_4:
  "65536 \<le> v \<Longrightarrow> v < 4294967296 \<Longrightarrow> get_byte_length v = 3 \<or> get_byte_length v = 4"
  using byte_length_le [of v 4] byte_length_le [of v 2] by simp linarith

lemma byte_length_3: "65536 \<le> v \<Longrightarrow> v < 16777216 \<Longrightarrow> get_byte_length v = 3"
  using byte_length_le [of v 3] byte_length_le [of v 2] by simp

lemma byte_length_5_8:
  "4294967296 \<le> v \<Longrightarrow> v < 18446744073709551616 \<Longrightarrow>
   5 \<le> get_byte_length v \<and> get_byte_length v \<le> 8"
  using byte_length_le [of v 8] byte_length_le [of v 4] by simp

lemma byte_length_5: "4294967296 \<le> v \<Longrightarrow> v < 1099511627776 \<Longrightarrow> get_byte_length v = 5"
  using byte_length_le [of v 5] byte_length_le [of v 4] by simp

lemma byte_length_9: "18446744073709551616 \<le> v \<Longrightarrow> 9 \<le> get_byte_length v"
  using byte_length_le [of v 8] by simp

subsection \<open>The header encoder, range by range\<close>

lemma encode_inline:
  assumes "0 \<le> tag" "tag \<le> 224" "0 \<le> v" "v < 24"
  shows "encodeTagAndValue tag v b = (Inr 1, b @ [word_of_int (tag + v)])"
  using assms
  by (simp add: encodeTagAndValue_def byte_length_small header_ok bind_def return_def)

lemma encode_width1:
  assumes "0 \<le> tag" "tag \<le> 224" "24 \<le> v" "v < 256"
  shows "encodeTagAndValue tag v b = (Inr 2, b @ word_of_int (tag + 24) # be_bytes 1 v)"
  using assms
  by (simp add: encodeTagAndValue_def byte_length_1 header_ok bind_def return_def
      Minor_length1_def appends_1 del: appends.simps be_bytes.simps)

lemma encode_width2:
  assumes "0 \<le> tag" "tag \<le> 224" "256 \<le> v" "v < 65536"
  shows "encodeTagAndValue tag v b = (Inr 3, b @ word_of_int (tag + 25) # be_bytes 2 v)"
  using assms
  by (simp add: encodeTagAndValue_def byte_length_2 header_ok bind_def return_def
      Minor_length2_def appends_2 del: appends.simps be_bytes.simps)

lemma encode_width4:
  assumes "0 \<le> tag" "tag \<le> 224" "65536 \<le> v" "v < 4294967296"
  shows "encodeTagAndValue tag v b =
         (Inr (1 + get_byte_length v), b @ word_of_int (tag + 26) # be_bytes 4 v)"
  using assms byte_length_3_4 [of v]
  by (auto simp add: encodeTagAndValue_def header_ok bind_def return_def
      Minor_length4_def appends_4 simp del: appends.simps be_bytes.simps)

lemma encode_width8:
  assumes "0 \<le> tag" "tag \<le> 224" "4294967296 \<le> v" "v < 18446744073709551616"
  shows "encodeTagAndValue tag v b =
         (Inr (1 + get_byte_length v), b @ word_of_int (tag + 27) # be_bytes 8 v)"
  using assms byte_length_5_8 [of v]
  by (simp add: encodeTagAndValue_def header_ok bind_def return_def
      Minor_length8_def appends_8 del: appends.simps be_bytes.simps)

lemma encode_unsupported:
  assumes "18446744073709551616 \<le> v"
  shows "encodeTagAndValue tag v b = (Inl (UnsupportedByteLength (get_byte_length v)), b)"
  using byte_length_9 [OF assms]
  by (simp add: encodeTagAndValue_def bind_def raise_def Let_def)

subsection \<open>The read loop\<close>

lemma be_value_bounds: "0 \<le> be_value xs \<and> be_value xs < 256 ^ length xs"
proof (induction xs)
  case Nil
  show ?case by simp
next
  case (Cons x xs)
  define p :: int where "p = 256 ^ length xs"
  have "uint x \<le> 255" using uint_bounded [of x] by simp
  then have "uint x * p \<le> 255 * p"
    unfolding p_def by (intro mult_right_mono) simp_all
  moreover have "0 \<le> uint x * p"
    unfolding p_def by simp
  moreover have "0 \<le> be_value xs" "be_value xs < p"
    using Cons unfolding p_def by simp_all
  ultimately have "0 \<le> uint x * p + be_value xs \<and> uint x * p + be_value xs < 256 * p"
    by linarith
  then show ?case unfolding p_def by simp
qed

lemma be_value_Cons_or:
  "be_value (x # xs) = push_bit (8 * length xs) (uint x) OR be_value xs"
proof -
  have p: "(256::int) ^ length xs = 2 ^ (8 * length xs)"
    by (simp add: power_mult)
  have "take_bit (8 * length xs) (be_value xs) = be_value xs"
    using be_value_bounds [of xs] by (simp add: take_bit_int_eq_self p)
  then have "push_bit (8 * length xs) (uint x) OR be_value xs =
        concat_bit (8 * length xs) (be_value xs) (uint x)"
    by (simp add: concat_bit_def or.commute)
  also have "\<dots> = be_value xs + push_bit (8 * length xs) (uint x)"
    using be_value_bounds [of xs] by (simp add: concat_bit_eq take_bit_int_eq_self p)
  finally show ?thesis by (simp add: push_bit_eq_mult p)
qed

lemma read_shifts_be:
  "pos d + n \<le> length (buf d) \<Longrightarrow>
   read_shifts (shifts_of n) acc d =
   (Inr (acc OR be_value (take n (drop (pos d) (buf d)))), d\<lparr>pos := pos d + n\<rparr>)"
proof (induction n arbitrary: acc d)
  case 0
  show ?case by simp
next
  case (Suc n)
  let ?x = "buf d ! pos d"
  let ?d = "d\<lparr>pos := pos d + 1\<rparr>"
  have lt: "pos d < length (buf d)" using Suc.prems by simp
  have tk: "take (Suc n) (drop (pos d) (buf d)) = ?x # take n (drop (pos ?d) (buf ?d))"
    using lt by (simp add: Cons_nth_drop_Suc [symmetric])
  have len: "length (take n (drop (pos ?d) (buf ?d))) = n"
    using Suc.prems by simp
  have ih: "read_shifts (shifts_of n) (acc OR push_bit (8 * n) (uint ?x)) ?d =
      (Inr ((acc OR push_bit (8 * n) (uint ?x)) OR be_value (take n (drop (pos ?d) (buf ?d)))),
       ?d\<lparr>pos := pos ?d + n\<rparr>)"
    by (rule Suc.IH) (use Suc.prems in simp)
  have "read_shifts (shifts_of (Suc n)) acc d =
        read_shifts (shifts_of n) (acc OR push_bit (8 * n) (uint ?x)) ?d"
    using lt by (simp add: bind_def buf_at_pos_def)
  also note ih
  finally show ?case
    unfolding tk be_value_Cons_or len by (simp add: or.assoc)
qed

lemma shifts_of_8: "shifts_of 8 = [56, 48, 40, 32, 24, 16, 8, 0]"
  by (simp add: eval_nat_numeral)

lemma shifts_of_4: "shifts_of 4 = [24, 16, 8, 0]"
  by (simp add: eval_nat_numeral)

lemma shifts_of_2: "shifts_of 2 = [8, 0]"
  by (simp add: eval_nat_numeral)

subsection \<open>The header decoder, path by path\<close>

lemma header_read:
  assumes "pos d < length (buf d)"
  shows "decodeTagAndAdditional flags d =
         (Inr (uint (buf d ! pos d) AND 224, uint (buf d ! pos d) AND 31, 1),
          d\<lparr>pos := pos d + 1\<rparr>)"
  using assms
  by (simp add: decodeTagAndAdditional_def bind_def buf_at_pos_def Major_mask_def Minor_mask_def)

lemma decode_at_end:
  assumes "pos d = length (buf d)"
  shows "decodeTagAndValue flags d = (Inl NotEnoughInput, d)"
  using assms by (simp add: decodeTagAndValue_def)

lemma decode_inline:
  assumes "pos d < length (buf d)" "uint (buf d ! pos d) AND 31 < 24"
  shows "decodeTagAndValue flags d =
         (Inr (uint (buf d ! pos d) AND 224, uint (buf d ! pos d) AND 31, 1),
          d\<lparr>pos := pos d + 1\<rparr>)"
  using assms
  by (simp add: decodeTagAndValue_def header_read bind_def Minor_length1_def)

lemma decode_bad:
  assumes "pos d < length (buf d)" "27 < uint (buf d ! pos d) AND 31"
  shows "decodeTagAndValue flags d = (Inl BadAdditionalValue, d\<lparr>pos := pos d + 1\<rparr>)"
  using assms
  by (simp add: decodeTagAndValue_def header_read bind_def tag_defs)

lemma decode_short1:
  assumes "pos d < length (buf d)" "uint (buf d ! pos d) AND 31 = 24"
    "length (buf d) < pos d + 1 + 1"
  shows "decodeTagAndValue flags d = (Inl NotEnoughInput, d\<lparr>pos := pos d + 1\<rparr>)"
  using assms
  by (simp add: decodeTagAndValue_def header_read bind_def tag_defs)

lemma decode_short2:
  assumes "pos d < length (buf d)" "uint (buf d ! pos d) AND 31 = 25"
    "length (buf d) < pos d + 1 + 2"
  shows "decodeTagAndValue flags d = (Inl NotEnoughInput, d\<lparr>pos := pos d + 1\<rparr>)"
  using assms
  by (simp add: decodeTagAndValue_def header_read bind_def tag_defs)

lemma decode_short4:
  assumes "pos d < length (buf d)" "uint (buf d ! pos d) AND 31 = 26"
    "length (buf d) < pos d + 1 + 4"
  shows "decodeTagAndValue flags d = (Inl NotEnoughInput, d\<lparr>pos := pos d + 1\<rparr>)"
  using assms
  by (simp add: decodeTagAndValue_def header_read bind_def tag_defs)

lemma decode_short8:
  assumes "pos d < length (buf d)" "uint (buf d ! pos d) AND 31 = 27"
    "length (buf d) < pos d + 1 + 8"
  shows "decodeTagAndValue flags d = (Inl NotEnoughInput, d\<lparr>pos := pos d + 1\<rparr>)"
  using assms
  by (simp add: decodeTagAndValue_def header_read bind_def tag_defs)

lemma read_1:
  assumes "pos d + 1 \<le> length (buf d)"
  shows "bind buf_at_pos (\<lambda>octet d'. (Inr (0 OR octet), d'\<lparr>pos := pos d' + 1\<rparr>)) d =
         (Inr (be_value (take 1 (drop (pos d) (buf d)))), d\<lparr>pos := pos d + 1\<rparr>)"
proof -
  have lt: "pos d < length (buf d)" using assms by simp
  have "take 1 (drop (pos d) (buf d)) = [buf d ! pos d]"
    using lt by (simp add: Cons_nth_drop_Suc [symmetric])
  then show ?thesis using lt by (simp add: bind_def buf_at_pos_def)
qed

lemma decode_read1:
  assumes "pos d < length (buf d)" "uint (buf d ! pos d) AND 31 = 24"
    "pos d + 1 + 1 \<le> length (buf d)"
  shows "decodeTagAndValue flags d =
         check_minimal flags (uint (buf d ! pos d) AND 224)
           (be_value (take 1 (drop (pos d + 1) (buf d)))) (d\<lparr>pos := pos d + 1 + 1\<rparr>)"
  using assms read_1 [of "d\<lparr>pos := pos d + 1\<rparr>"]
  by (simp add: decodeTagAndValue_def header_read tag_defs bind_def [of "bind _ _"]
      bind_def [of "decodeTagAndAdditional _"])

lemma decode_read2:
  assumes "pos d < length (buf d)" "uint (buf d ! pos d) AND 31 = 25"
    "pos d + 1 + 2 \<le> length (buf d)"
  shows "decodeTagAndValue flags d =
         check_minimal flags (uint (buf d ! pos d) AND 224)
           (be_value (take 2 (drop (pos d + 1) (buf d)))) (d\<lparr>pos := pos d + 1 + 2\<rparr>)"
  using assms read_shifts_be [of "d\<lparr>pos := pos d + 1\<rparr>" 2 0]
  by (simp add: decodeTagAndValue_def header_read tag_defs shifts_of_2
      bind_def [of "read_shifts _ _"] bind_def [of "decodeTagAndAdditional _"]
      del: read_shifts.simps)

lemma decode_read4:
  assumes "pos d < length (buf d)" "uint (buf d ! pos d) AND 31 = 26"
    "pos d + 1 + 4 \<le> length (buf d)"
  shows "decodeTagAndValue flags d =
         check_minimal flags (uint (buf d ! pos d) AND 224)
           (be_value (take 4 (drop (pos d + 1) (buf d)))) (d\<lparr>pos := pos d + 1 + 4\<rparr>)"
  using assms read_shifts_be [of "d\<lparr>pos := pos d + 1\<rparr>" 4 0]
  by (simp add: decodeTagAndValue_def header_read tag_defs shifts_of_4
      bind_def [of "read_shifts _ _"] bind_def [of "decodeTagAndAdditional _"]
      del: read_shifts.simps)

lemma decode_read8:
  assumes "pos d < length (buf d)" "uint (buf d ! pos d) AND 31 = 27"
    "pos d + 1 + 8 \<le> length (buf d)"
  shows "decodeTagAndValue flags d =
         check_minimal flags (uint (buf d ! pos d) AND 224)
           (be_value (take 8 (drop (pos d + 1) (buf d)))) (d\<lparr>pos := pos d + 1 + 8\<rparr>)"
  using assms read_shifts_be [of "d\<lparr>pos := pos d + 1\<rparr>" 8 0]
  by (simp add: decodeTagAndValue_def header_read tag_defs shifts_of_8
      bind_def [of "read_shifts _ _"] bind_def [of "decodeTagAndAdditional _"]
      del: read_shifts.simps)

lemma length_be_bytes: "length (be_bytes n v) = n"
  by (induction n arbitrary: v) simp_all

lemma width_body_inline:
  assumes "0 \<le> tag" "tag \<le> 224" "0 \<le> v" "v < 24"
  shows "emitted_width tag v b = 0"
  using assms by (simp add: emitted_width_def encode_inline)

lemma width_body_1:
  assumes "0 \<le> tag" "tag \<le> 224" "24 \<le> v" "v < 256"
  shows "emitted_width tag v b = 1"
  using assms by (simp add: emitted_width_def encode_width1 length_be_bytes del: be_bytes.simps)

lemma width_body_2:
  assumes "0 \<le> tag" "tag \<le> 224" "256 \<le> v" "v < 65536"
  shows "emitted_width tag v b = 2"
  using assms by (simp add: emitted_width_def encode_width2 length_be_bytes del: be_bytes.simps)

lemma width_body_4:
  assumes "0 \<le> tag" "tag \<le> 224" "65536 \<le> v" "v < 4294967296"
  shows "emitted_width tag v b = 4"
  using assms by (simp add: emitted_width_def encode_width4 length_be_bytes del: be_bytes.simps)

lemma width_body_8:
  assumes "0 \<le> tag" "tag \<le> 224" "4294967296 \<le> v" "v < 18446744073709551616"
  shows "emitted_width tag v b = 8"
  using assms by (simp add: emitted_width_def encode_width8 length_be_bytes del: be_bytes.simps)

lemma fits_simps:
  "fits 0 v \<longleftrightarrow> v < 24" "fits 1 v \<longleftrightarrow> v < 256" "fits (Suc 0) v \<longleftrightarrow> v < 256"
  "fits 2 v \<longleftrightarrow> v < 65536"
  "fits 4 v \<longleftrightarrow> v < 4294967296" "fits 8 v \<longleftrightarrow> v < 18446744073709551616"
  by (simp_all add: fits_def)

lemma byte_length_3_range: "24 \<le> v \<Longrightarrow> get_byte_length v = 3 \<longleftrightarrow> 65536 \<le> v \<and> v < 16777216"
  using byte_length_le [of v 3] byte_length_le [of v 2] by simp linarith

lemma byte_length_567_range:
  "24 \<le> v \<Longrightarrow> get_byte_length v \<in> {5, 6, 7} \<longleftrightarrow> 4294967296 \<le> v \<and> v < 72057594037927936"
  using byte_length_le [of v 7] byte_length_le [of v 4] by simp linarith


subsection \<open>The width the encoder emits\<close>

text \<open>
  C4. For a magnitude below \<open>2 ^ 64\<close>, \<^verbatim>\<open>encodeTagAndValue\<close> writes the header octet
  and the magnitude big-endian in a field of 0, 1, 2, 4 or 8 bytes: the smallest of these
  widths that can hold the magnitude, a computed length of 3 giving 4 bytes and one of 5,
  6 or 7 giving 8 bytes. For a magnitude of \<open>2 ^ 64\<close> or more it raises the
  unsupported-byte-length error and appends nothing.
\<close>

theorem encodeTagAndValue_width:
  assumes "0 \<le> tag" "tag \<le> 224" "0 \<le> v"
  shows "(v < 2 ^ 64 \<longrightarrow>
            (let w = emitted_width tag v b in
             encodeTagAndValue tag v b =
               (Inr (1 + get_byte_length v), b @ word_of_int (tag + minor_for w v) # be_bytes w v) \<and>
             w \<in> {0, 1, 2, 4, 8} \<and> fits w v \<and>
             (\<forall>w' \<in> {0, 1, 2, 4, 8}. fits w' v \<longrightarrow> w \<le> w') \<and>
             (get_byte_length v = 3 \<longrightarrow> w = 4) \<and>
             (get_byte_length v \<in> {5, 6, 7} \<longrightarrow> w = 8))) \<and>
         (2 ^ 64 \<le> v \<longrightarrow>
            encodeTagAndValue tag v b = (Inl (UnsupportedByteLength (get_byte_length v)), b))"
proof (intro conjI impI)
  assume "2 ^ 64 \<le> v"
  then show "encodeTagAndValue tag v b = (Inl (UnsupportedByteLength (get_byte_length v)), b)"
    by (intro encode_unsupported) simp
next
  assume lt: "v < 2 ^ 64"
  consider "v < 24" | "24 \<le> v" "v < 256" | "256 \<le> v" "v < 65536"
    | "65536 \<le> v" "v < 4294967296" | "4294967296 \<le> v" "v < 18446744073709551616"
    using lt by fastforce
  then show "let w = emitted_width tag v b in
             encodeTagAndValue tag v b =
               (Inr (1 + get_byte_length v), b @ word_of_int (tag + minor_for w v) # be_bytes w v) \<and>
             w \<in> {0, 1, 2, 4, 8} \<and> fits w v \<and>
             (\<forall>w' \<in> {0, 1, 2, 4, 8}. fits w' v \<longrightarrow> w \<le> w') \<and>
             (get_byte_length v = 3 \<longrightarrow> w = 4) \<and>
             (get_byte_length v \<in> {5, 6, 7} \<longrightarrow> w = 8)"
  proof cases
    case 1
    then show ?thesis
      using assms
      by (simp add: width_body_inline encode_inline byte_length_small minor_for_def fits_simps)
  next
    case 2
    then show ?thesis
      using assms
      by (simp add: width_body_1 encode_width1 byte_length_1 minor_for_def fits_simps tag_defs
          del: be_bytes.simps)
  next
    case 3
    then show ?thesis
      using assms
      by (simp add: width_body_2 encode_width2 byte_length_2 minor_for_def fits_simps tag_defs
          del: be_bytes.simps)
  next
    case 4
    then show ?thesis
      using assms byte_length_3_4 [of v]
      by (auto simp add: width_body_4 encode_width4 minor_for_def fits_simps tag_defs
          simp del: be_bytes.simps)
  next
    case 5
    then show ?thesis
      using assms byte_length_5_8 [of v]
      by (auto simp add: width_body_8 encode_width8 minor_for_def fits_simps tag_defs
          simp del: be_bytes.simps)
  qed
qed

theorem encodeTagAndValue_width_witness:
  "(0::int) \<le> 0 \<and> (0::int) \<le> 224 \<and> (0::int) \<le> 65536 \<and> (65536::int) < 2 ^ 64 \<and>
   emitted_width 0 65536 [] = 4 \<and>
   encodeTagAndValue 0 65536 [] = (Inr 4, [0x1a, 0, 1, 0, 0]) \<and>
   (2::int) ^ 64 \<le> 2 ^ 64 \<and>
   encodeTagAndValue 0 (2 ^ 64) [] = (Inl (UnsupportedByteLength 9), [])"
proof -
  have len3: "get_byte_length 65536 = 3"
    by (rule byte_length_3) simp_all
  have len9: "get_byte_length (2 ^ 64) = 9"
    using byte_length_le [of "2 ^ 64" 9] byte_length_le [of "2 ^ 64" 8] by simp
  have w: "emitted_width 0 65536 [] = 4"
    using encodeTagAndValue_width [of 0 65536 "[]"] len3 by (simp add: Let_def)
  have e: "encodeTagAndValue 0 65536 [] = (Inr 4, [0x1a, 0, 1, 0, 0])"
    using encodeTagAndValue_width [of 0 65536 "[]"] len3 w
    by (simp add: Let_def minor_for_def tag_defs eval_nat_numeral)
  have u: "encodeTagAndValue 0 (2 ^ 64) [] = (Inl (UnsupportedByteLength 9), [])"
    using encodeTagAndValue_width [of 0 "2 ^ 64" "[]"] len9 by simp
  show ?thesis using w e u by simp
qed

lemma decode_beyond:
  assumes "length (buf d) < pos d"
  shows "decodeTagAndValue flags d = (Inl IndexError, d)"
  using assms
  by (simp add: decodeTagAndValue_def decodeTagAndAdditional_def bind_def buf_at_pos_def)

lemma minor_cases:
  assumes "24 \<le> a" "a \<le> 27"
  shows "a = 24 \<or> a = 25 \<or> a = 26 \<or> (a::int) = 27"
  using assms by arith

lemma decode_short:
  assumes "pos d < length (buf d)" "24 \<le> uint (buf d ! pos d) AND 31"
    "uint (buf d ! pos d) AND 31 \<le> 27"
    "length (buf d) < pos d + 1 + read_width (uint (buf d ! pos d) AND 31)"
  shows "decodeTagAndValue flags d = (Inl NotEnoughInput, d\<lparr>pos := pos d + 1\<rparr>)"
  using minor_cases [OF assms(2,3)] assms(1,4)
  by (auto simp add: read_width_def decode_short1 decode_short2 decode_short4 decode_short8)

lemma decode_multi:
  assumes "pos d < length (buf d)" "24 \<le> uint (buf d ! pos d) AND 31"
    "uint (buf d ! pos d) AND 31 \<le> 27"
    "pos d + 1 + read_width (uint (buf d ! pos d) AND 31) \<le> length (buf d)"
  shows "decodeTagAndValue flags d =
         check_minimal flags (uint (buf d ! pos d) AND 224)
           (be_value (take (read_width (uint (buf d ! pos d) AND 31)) (drop (pos d + 1) (buf d))))
           (d\<lparr>pos := pos d + 1 + read_width (uint (buf d ! pos d) AND 31)\<rparr>)"
  using minor_cases [OF assms(2,3)] assms(1,4)
  by (auto simp add: read_width_def decode_read1 decode_read2 decode_read4 decode_read8)

subsection \<open>The paths of the header decoder\<close>

text \<open>
  C5. \<^verbatim>\<open>decodeTagAndValue\<close> raises the not-enough-input error when the cursor is at the
  end of the buffer. Otherwise it reads the header octet. A minor indicator below 24 is
  the magnitude, and nothing more is read. An indicator of 24, 25, 26 or 27 announces 1, 2,
  4 or 8 bytes: with fewer bytes left the not-enough-input error is raised (the header
  octet stays consumed); else exactly that many bytes are read, big-endian, as the
  magnitude, which is returned unless the minimal-encoding check rejects it. An indicator
  from 28 to 31 raises the bad-additional-value error.
\<close>

theorem decodeTagAndValue_paths:
  "(pos d = length (buf d) \<longrightarrow> decodeTagAndValue flags d = (Inl NotEnoughInput, d)) \<and>
   (pos d < length (buf d) \<longrightarrow>
      (let octet = uint (buf d ! pos d);
           tag = octet AND 224;
           a = octet AND 31;
           rest = drop (pos d + 1) (buf d);
           w = read_width a
       in (a < 24 \<longrightarrow>
             decodeTagAndValue flags d = (Inr (tag, a, 1), d\<lparr>pos := pos d + 1\<rparr>)) \<and>
          (24 \<le> a \<and> a \<le> 27 \<and> length rest < w \<longrightarrow>
             decodeTagAndValue flags d = (Inl NotEnoughInput, d\<lparr>pos := pos d + 1\<rparr>)) \<and>
          (24 \<le> a \<and> a \<le> 27 \<and> w \<le> length rest \<longrightarrow>
             decodeTagAndValue flags d =
               (if flags AND Flag_requireMinimalEncoding \<noteq> 0 \<and> be_value (take w rest) = 0
                then Inl EncodingNotMinimal
                else Inr (tag, be_value (take w rest), int (pos d + 1 + w)),
                d\<lparr>pos := pos d + 1 + w\<rparr>)) \<and>
          (28 \<le> a \<longrightarrow>
             decodeTagAndValue flags d = (Inl BadAdditionalValue, d\<lparr>pos := pos d + 1\<rparr>))))"
proof (intro conjI impI)
  assume "pos d = length (buf d)"
  then show "decodeTagAndValue flags d = (Inl NotEnoughInput, d)"
    by (rule decode_at_end)
next
  assume lt: "pos d < length (buf d)"
  let ?a = "uint (buf d ! pos d) AND 31"
  let ?rest = "drop (pos d + 1) (buf d)"
  have inline: "?a < 24 \<Longrightarrow> decodeTagAndValue flags d =
      (Inr (uint (buf d ! pos d) AND 224, ?a, 1), d\<lparr>pos := pos d + 1\<rparr>)"
    using lt by (rule decode_inline)
  have short: "24 \<le> ?a \<and> ?a \<le> 27 \<and> length ?rest < read_width ?a \<Longrightarrow>
      decodeTagAndValue flags d = (Inl NotEnoughInput, d\<lparr>pos := pos d + 1\<rparr>)"
    using lt by (intro decode_short) auto
  have multi: "24 \<le> ?a \<and> ?a \<le> 27 \<and> read_width ?a \<le> length ?rest \<Longrightarrow>
      decodeTagAndValue flags d =
        (if flags AND Flag_requireMinimalEncoding \<noteq> 0 \<and> be_value (take (read_width ?a) ?rest) = 0
         then Inl EncodingNotMinimal
         else Inr (uint (buf d ! pos d) AND 224, be_value (take (read_width ?a) ?rest),
                   int (pos d + 1 + read_width ?a)),
         d\<lparr>pos := pos d + 1 + read_width ?a\<rparr>)"
    using lt decode_multi [of d flags] by (auto simp add: check_minimal_def)
  have bad: "28 \<le> ?a \<Longrightarrow>
      decodeTagAndValue flags d = (Inl BadAdditionalValue, d\<lparr>pos := pos d + 1\<rparr>)"
    using lt by (intro decode_bad) auto
  show "let octet = uint (buf d ! pos d);
           tag = octet AND 224;
           a = octet AND 31;
           rest = drop (pos d + 1) (buf d);
           w = read_width a
       in (a < 24 \<longrightarrow>
             decodeTagAndValue flags d = (Inr (tag, a, 1), d\<lparr>pos := pos d + 1\<rparr>)) \<and>
          (24 \<le> a \<and> a \<le> 27 \<and> length rest < w \<longrightarrow>
             decodeTagAndValue flags d = (Inl NotEnoughInput, d\<lparr>pos := pos d + 1\<rparr>)) \<and>
          (24 \<le> a \<and> a \<le> 27 \<and> w \<le> length rest \<longrightarrow>
             decodeTagAndValue flags d =
               (if flags AND Flag_requireMinimalEncoding \<noteq> 0 \<and> be_value (take w rest) = 0
                then Inl EncodingNotMinimal
                else Inr (tag, be_value (take w rest), int (pos d + 1 + w)),
                d\<lparr>pos := pos d + 1 + w\<rparr>)) \<and>
          (28 \<le> a \<longrightarrow>
             decodeTagAndValue flags d = (Inl BadAdditionalValue, d\<lparr>pos := pos d + 1\<rparr>))"
    unfolding Let_def using inline short multi bad by blast
qed


theorem decodeTagAndValue_paths_witness:
  "decodeTagAndValue Flag_none (CBORDecoder []) = (Inl NotEnoughInput, CBORDecoder []) \<and>
   decodeTagAndValue Flag_none (CBORDecoder [0x37]) =
     (Inr (Major_negativeInteger, 23, 1), \<lparr>buf = [0x37], pos = 1\<rparr>) \<and>
   decodeTagAndValue Flag_none (CBORDecoder [0x19, 1, 0]) =
     (Inr (Major_unsignedInteger, 256, 3), \<lparr>buf = [0x19, 1, 0], pos = 3\<rparr>) \<and>
   decodeTagAndValue Flag_none (CBORDecoder [0x19, 1]) =
     (Inl NotEnoughInput, \<lparr>buf = [0x19, 1], pos = 1\<rparr>) \<and>
   decodeTagAndValue Flag_none (CBORDecoder [0x1c]) =
     (Inl BadAdditionalValue, \<lparr>buf = [0x1c], pos = 1\<rparr>)"
proof -
  have a: "decodeTagAndValue Flag_none (CBORDecoder []) = (Inl NotEnoughInput, CBORDecoder [])"
    using decodeTagAndValue_paths [of "CBORDecoder []" Flag_none]
    by (simp add: CBORDecoder_def)
  have b: "decodeTagAndValue Flag_none (CBORDecoder [0x37]) =
      (Inr (Major_negativeInteger, 23, 1), \<lparr>buf = [0x37], pos = 1\<rparr>)"
    using decodeTagAndValue_paths [of "CBORDecoder [0x37]" Flag_none]
    by (simp add: CBORDecoder_def Let_def Major_negativeInteger_def)
  have c: "decodeTagAndValue Flag_none (CBORDecoder [0x19, 1, 0]) =
      (Inr (Major_unsignedInteger, 256, 3), \<lparr>buf = [0x19, 1, 0], pos = 3\<rparr>)"
    using decodeTagAndValue_paths [of "CBORDecoder [0x19, 1, 0]" Flag_none]
    by (simp add: CBORDecoder_def Let_def read_width_def Flag_none_def Major_unsignedInteger_def)
  have d: "decodeTagAndValue Flag_none (CBORDecoder [0x19, 1]) =
      (Inl NotEnoughInput, \<lparr>buf = [0x19, 1], pos = 1\<rparr>)"
    using decodeTagAndValue_paths [of "CBORDecoder [0x19, 1]" Flag_none]
    by (simp add: CBORDecoder_def Let_def read_width_def)
  have e: "decodeTagAndValue Flag_none (CBORDecoder [0x1c]) =
      (Inl BadAdditionalValue, \<lparr>buf = [0x1c], pos = 1\<rparr>)"
    using decodeTagAndValue_paths [of "CBORDecoder [0x1c]" Flag_none]
    by (simp add: CBORDecoder_def Let_def)
  show ?thesis using a b c d e by simp
qed

subsection \<open>The minimal-encoding check\<close>

lemma check_minimal_fst:
  "fst (check_minimal flags tag v d) = Inl EncodingNotMinimal \<longleftrightarrow>
   flags AND Flag_requireMinimalEncoding \<noteq> 0 \<and> v = 0"
  by (simp add: check_minimal_def)

text \<open>
  C9. With \<^verbatim>\<open>requireMinimalEncoding\<close> set, \<^verbatim>\<open>decodeTagAndValue\<close> raises the
  encoding-not-minimal error exactly when it read a field of 1, 2, 4 or 8 bytes whose
  magnitude is zero. The magnitude 1 in a field of 8 bytes is accepted.
\<close>

theorem requireMinimalEncoding_rejects_zero_only:
  assumes "flags AND Flag_requireMinimalEncoding \<noteq> 0"
  shows "(fst (decodeTagAndValue flags d) = Inl EncodingNotMinimal \<longleftrightarrow>
            pos d < length (buf d) \<and>
            (let a = uint (buf d ! pos d) AND 31; rest = drop (pos d + 1) (buf d)
             in 24 \<le> a \<and> a \<le> 27 \<and> read_width a \<le> length rest \<and>
                be_value (take (read_width a) rest) = 0)) \<and>
         decodeTagAndValue flags (CBORDecoder [0x1b, 0, 0, 0, 0, 0, 0, 0, 1]) =
           (Inr (Major_unsignedInteger, 1, 9), \<lparr>buf = [0x1b, 0, 0, 0, 0, 0, 0, 0, 1], pos = 9\<rparr>)"
proof
  let ?a = "uint (buf d ! pos d) AND 31"
  let ?rest = "drop (pos d + 1) (buf d)"
  consider "pos d = length (buf d)" | "length (buf d) < pos d"
    | "pos d < length (buf d)" "?a < 24"
    | "pos d < length (buf d)" "27 < ?a"
    | "pos d < length (buf d)" "24 \<le> ?a" "?a \<le> 27" "length (buf d) < pos d + 1 + read_width ?a"
    | "pos d < length (buf d)" "24 \<le> ?a" "?a \<le> 27" "pos d + 1 + read_width ?a \<le> length (buf d)"
    by linarith
  then show "fst (decodeTagAndValue flags d) = Inl EncodingNotMinimal \<longleftrightarrow>
            pos d < length (buf d) \<and>
            (let a = uint (buf d ! pos d) AND 31; rest = drop (pos d + 1) (buf d)
             in 24 \<le> a \<and> a \<le> 27 \<and> read_width a \<le> length rest \<and>
                be_value (take (read_width a) rest) = 0)"
  proof cases
    case 1
    then show ?thesis by (simp add: decode_at_end)
  next
    case 2
    then show ?thesis by (simp add: decode_beyond)
  next
    case 3
    then show ?thesis by (simp add: decode_inline Let_def)
  next
    case 4
    then show ?thesis by (simp add: decode_bad Let_def)
  next
    case 5
    then show ?thesis by (simp add: decode_short Let_def)
  next
    case 6
    then show ?thesis using assms by (auto simp add: decode_multi check_minimal_fst Let_def)
  qed
next
  show "decodeTagAndValue flags (CBORDecoder [0x1b, 0, 0, 0, 0, 0, 0, 0, 1]) =
      (Inr (Major_unsignedInteger, 1, 9), \<lparr>buf = [0x1b, 0, 0, 0, 0, 0, 0, 0, 1], pos = 9\<rparr>)"
    using decode_read8 [of "CBORDecoder [0x1b, 0, 0, 0, 0, 0, 0, 0, 1]" flags]
    by (simp add: CBORDecoder_def check_minimal_def Major_unsignedInteger_def)
qed

theorem requireMinimalEncoding_rejects_zero_only_witness:
  "(1::int) AND Flag_requireMinimalEncoding \<noteq> 0 \<and>
   fst (decodeTagAndValue 1 (CBORDecoder [0x18, 0])) = Inl EncodingNotMinimal \<and>
   fst (decodeTagAndValue 1 (CBORDecoder [0x18, 1])) \<noteq> Inl EncodingNotMinimal \<and>
   decodeTagAndValue 1 (CBORDecoder [0x1b, 0, 0, 0, 0, 0, 0, 0, 1]) =
     (Inr (Major_unsignedInteger, 1, 9), \<lparr>buf = [0x1b, 0, 0, 0, 0, 0, 0, 0, 1], pos = 9\<rparr>)"
proof -
  have f: "(1::int) AND Flag_requireMinimalEncoding \<noteq> 0"
    by (simp add: Flag_requireMinimalEncoding_def)
  have z: "fst (decodeTagAndValue 1 (CBORDecoder [0x18, 0])) = Inl EncodingNotMinimal"
    using requireMinimalEncoding_rejects_zero_only [OF f, of "CBORDecoder [0x18, 0]"]
    by (simp add: CBORDecoder_def Let_def read_width_def)
  have n: "fst (decodeTagAndValue 1 (CBORDecoder [0x18, 1])) \<noteq> Inl EncodingNotMinimal"
    using requireMinimalEncoding_rejects_zero_only [OF f, of "CBORDecoder [0x18, 1]"]
    by (simp add: CBORDecoder_def Let_def read_width_def)
  show ?thesis
    using f z n requireMinimalEncoding_rejects_zero_only [OF f, of "CBORDecoder []"] by simp
qed

subsection \<open>Decoding what the encoder wrote\<close>

lemma be_value_snoc: "be_value (xs @ [x]) = be_value xs * 256 + uint x"
  by (induction xs) (simp_all add: algebra_simps)

lemma uint_byte_mod: "uint (word_of_int (v mod 256) :: byte) = v mod 256"
  by (simp add: uint_word_of_int_eq take_bit_eq_mod)

lemma be_value_be_bytes: "be_value (be_bytes n v) = v mod 256 ^ n"
proof (induction n arbitrary: v)
  case 0
  show ?case by simp
next
  case (Suc n)
  have "be_value (be_bytes (Suc n) v) = (v div 256 mod 256 ^ n) * 256 + v mod 256"
    by (simp add: be_value_snoc Suc.IH uint_byte_mod del: word_of_int_eq_iff)
  also have "\<dots> = v mod 256 ^ Suc n"
    using zmod_zmult2_eq [of "256 ^ n" v 256] by simp
  finally show ?case .
qed

lemma be_value_be_bytes_id:
  assumes "0 \<le> v" "v < 256 ^ n"
  shows "be_value (be_bytes n v) = v"
  using assms by (simp add: be_value_be_bytes)

lemma and_31_mod: "(x::int) AND 31 = x mod 32"
proof -
  have "x AND mask 5 = x mod 2 ^ 5"
    by (simp only: take_bit_eq_mask [symmetric] take_bit_eq_mod)
  then show ?thesis by (simp add: mask_eq_exp_minus_1)
qed

lemma and_224_split: "(x::int) AND 224 = (x AND 255) - (x AND 31)"
proof -
  have "(x AND 224) AND (x AND 31) = x AND (224 AND 31)"
    by (simp only: and.assoc and.left_commute and.left_idem)
  also have "(224::int) AND 31 = 0"
    by simp
  finally have d: "(x AND 224) AND (x AND 31) = 0"
    by simp
  have "(x AND 224) OR (x AND 31) = x AND (224 OR 31)"
    by (simp only: bit.conj_disj_distrib)
  also have "(224::int) OR 31 = 255"
    by simp
  finally have o: "(x AND 224) OR (x AND 31) = x AND 255" .
  show ?thesis
    using plus_and_or [of "x AND 224" "x AND 31"] unfolding d o by linarith
qed


lemma header_octet:
  assumes "0 \<le> tag" "tag \<le> 224" "tag mod 32 = 0" "0 \<le> a" "a < 32"
  shows "uint (word_of_int (tag + a) :: byte) AND 31 = a"
    and "uint (word_of_int (tag + a) :: byte) AND 224 = tag"
proof -
  have u: "uint (word_of_int (tag + a) :: byte) = tag + a"
    unfolding uint_word_of_int_eq using assms by (simp add: take_bit_int_eq_self)
  have m: "(tag + a) mod 32 = a"
    using assms by presburger
  show "uint (word_of_int (tag + a) :: byte) AND 31 = a"
    unfolding u and_31_mod by (rule m)
  have "(tag + a) mod 256 = tag + a"
    using assms by simp
  then show "uint (word_of_int (tag + a) :: byte) AND 224 = tag"
    unfolding u and_224_split and_31_mod and_255_mod using m by simp
qed

lemma decode_after_inline:
  assumes "0 \<le> tag" "tag \<le> 224" "tag mod 32 = 0" "0 \<le> v" "v < 24"
  shows "decodeTagAndValue flags \<lparr>buf = pre @ word_of_int (tag + v) # post, pos = length pre\<rparr> =
         (Inr (tag, v, 1), \<lparr>buf = pre @ word_of_int (tag + v) # post, pos = length pre + 1\<rparr>)"
proof -
  let ?d = "\<lparr>buf = pre @ word_of_int (tag + v) # post, pos = length pre\<rparr>"
  have x: "buf ?d ! pos ?d = word_of_int (tag + v)"
    by simp
  have h: "uint (buf ?d ! pos ?d) AND 31 = v" "uint (buf ?d ! pos ?d) AND 224 = tag"
    unfolding x using header_octet [OF assms(1-3), of v] assms by simp_all
  have "decodeTagAndValue flags ?d =
        (Inr (uint (buf ?d ! pos ?d) AND 224, uint (buf ?d ! pos ?d) AND 31, 1),
         ?d\<lparr>pos := pos ?d + 1\<rparr>)"
    by (rule decode_inline) (use assms h in simp_all)
  then show ?thesis unfolding h by simp
qed

lemma decode_after_field:
  assumes "0 \<le> tag" "tag \<le> 224" "tag mod 32 = 0" "24 \<le> a" "a \<le> 27"
    "0 < v" "v < 256 ^ read_width a"
  shows "decodeTagAndValue flags
           \<lparr>buf = pre @ word_of_int (tag + a) # be_bytes (read_width a) v @ post,
            pos = length pre\<rparr> =
         (Inr (tag, v, int (length pre + 1 + read_width a)),
          \<lparr>buf = pre @ word_of_int (tag + a) # be_bytes (read_width a) v @ post,
           pos = length pre + 1 + read_width a\<rparr>)"
proof -
  let ?w = "read_width a"
  let ?b = "pre @ word_of_int (tag + a) # be_bytes ?w v @ post"
  let ?d = "\<lparr>buf = ?b, pos = length pre\<rparr>"
  have x: "buf ?d ! pos ?d = word_of_int (tag + a)"
    by simp
  have h: "uint (buf ?d ! pos ?d) AND 31 = a" "uint (buf ?d ! pos ?d) AND 224 = tag"
    unfolding x using header_octet [OF assms(1-3), of a] assms by simp_all
  have tk: "take ?w (drop (pos ?d + 1) (buf ?d)) = be_bytes ?w v"
    by (simp add: length_be_bytes)
  have "decodeTagAndValue flags ?d =
        check_minimal flags (uint (buf ?d ! pos ?d) AND 224)
          (be_value (take (read_width (uint (buf ?d ! pos ?d) AND 31)) (drop (pos ?d + 1) (buf ?d))))
          (?d\<lparr>pos := pos ?d + 1 + read_width (uint (buf ?d ! pos ?d) AND 31)\<rparr>)"
    by (rule decode_multi) (use assms h in \<open>simp_all add: length_be_bytes\<close>)
  also have "\<dots> = check_minimal flags tag v (?d\<lparr>pos := pos ?d + 1 + ?w\<rparr>)"
    unfolding h tk using assms by (simp add: be_value_be_bytes_id)
  finally show ?thesis
    using assms by (simp add: check_minimal_def)
qed


lemma read_width_simps:
  "read_width 24 = 1" "read_width 25 = 2" "read_width 26 = 4" "read_width 27 = 8"
  by (simp_all add: read_width_def)

lemma decode_encoded:
  assumes "0 \<le> tag" "tag \<le> 224" "tag mod 32 = 0" "0 \<le> v" "v < 2 ^ 64"
  shows "decodeTagAndValue flags
           \<lparr>buf = pre @ snd (encodeTagAndValue tag v []) @ post, pos = length pre\<rparr> =
         (Inr (tag, v,
               if v < 24 then 1 else int (length pre + 1 + emitted_width tag v [])),
          \<lparr>buf = pre @ snd (encodeTagAndValue tag v []) @ post,
           pos = length pre + 1 + emitted_width tag v []\<rparr>)"
proof -
  consider "v < 24" | "24 \<le> v" "v < 256" | "256 \<le> v" "v < 65536"
    | "65536 \<le> v" "v < 4294967296" | "4294967296 \<le> v" "v < 18446744073709551616"
    using assms(5) by fastforce
  then show ?thesis
  proof cases
    case 1
    then show ?thesis
      using assms decode_after_inline [OF assms(1-4), of flags pre post]
      by (simp add: encode_inline width_body_inline)
  next
    case 2
    then show ?thesis
      using assms decode_after_field [OF assms(1-3), of 24 v flags pre post]
      by (simp add: encode_width1 width_body_1 read_width_simps del: be_bytes.simps)
  next
    case 3
    then show ?thesis
      using assms decode_after_field [OF assms(1-3), of 25 v flags pre post]
      by (simp add: encode_width2 width_body_2 read_width_simps del: be_bytes.simps)
  next
    case 4
    then show ?thesis
      using assms decode_after_field [OF assms(1-3), of 26 v flags pre post]
      by (simp add: encode_width4 width_body_4 read_width_simps del: be_bytes.simps)
  next
    case 5
    then show ?thesis
      using assms decode_after_field [OF assms(1-3), of 27 v flags pre post]
      by (simp add: encode_width8 width_body_8 read_width_simps del: be_bytes.simps)
  qed
qed

subsection \<open>Round trips of the header\<close>

lemma byte_length_4: "16777216 \<le> v \<Longrightarrow> v < 4294967296 \<Longrightarrow> get_byte_length v = 4"
  using byte_length_le [of v 4] byte_length_le [of v 3] by simp

lemma byte_length_8:
  "72057594037927936 \<le> v \<Longrightarrow> v < 18446744073709551616 \<Longrightarrow> get_byte_length v = 8"
  using byte_length_le [of v 8] byte_length_le [of v 7] by simp

lemma encode_result:
  assumes "0 \<le> tag" "tag \<le> 224" "0 \<le> v" "v < 2 ^ 64"
  shows "encodeTagAndValue tag v b =
         (Inr (1 + get_byte_length v), b @ snd (encodeTagAndValue tag v []))"
    and "length (snd (encodeTagAndValue tag v [])) = 1 + emitted_width tag v []"
proof -
  consider "v < 24" | "24 \<le> v" "v < 256" | "256 \<le> v" "v < 65536"
    | "65536 \<le> v" "v < 4294967296" | "4294967296 \<le> v" "v < 18446744073709551616"
    using assms(4) by fastforce
  then have "encodeTagAndValue tag v b =
         (Inr (1 + get_byte_length v), b @ snd (encodeTagAndValue tag v [])) \<and>
         length (snd (encodeTagAndValue tag v [])) = 1 + emitted_width tag v []"
  proof cases
    case 1
    then show ?thesis
      using assms by (simp add: encode_inline width_body_inline byte_length_small)
  next
    case 2
    then show ?thesis
      using assms
      by (simp add: encode_width1 width_body_1 byte_length_1 length_be_bytes del: be_bytes.simps)
  next
    case 3
    then show ?thesis
      using assms
      by (simp add: encode_width2 width_body_2 byte_length_2 length_be_bytes del: be_bytes.simps)
  next
    case 4
    then show ?thesis
      using assms
      by (simp add: encode_width4 width_body_4 length_be_bytes del: be_bytes.simps)
  next
    case 5
    then show ?thesis
      using assms
      by (simp add: encode_width8 width_body_8 length_be_bytes del: be_bytes.simps)
  qed
  then show "encodeTagAndValue tag v b =
         (Inr (1 + get_byte_length v), b @ snd (encodeTagAndValue tag v []))"
    and "length (snd (encodeTagAndValue tag v [])) = 1 + emitted_width tag v []"
    by simp_all
qed

lemma roundtrip_eq:
  assumes "0 \<le> tag" "tag \<le> 224" "tag mod 32 = 0" "0 \<le> v" "v < 2 ^ 64"
  shows "roundtrip flags tag v =
         Some (1 + get_byte_length v, tag, v,
               if v < 24 then 1 else 1 + int (emitted_width tag v []))"
proof -
  have e: "encodeTagAndValue tag v [] =
      (Inr (1 + get_byte_length v), snd (encodeTagAndValue tag v []))"
    using encode_result(1) [OF assms(1,2,4,5), of "[]"] by simp
  have d: "decodeTagAndValue flags (CBORDecoder (snd (encodeTagAndValue tag v []))) =
      (Inr (tag, v, if v < 24 then 1 else int (1 + emitted_width tag v [])),
       \<lparr>buf = snd (encodeTagAndValue tag v []), pos = 1 + emitted_width tag v []\<rparr>)"
    using decode_encoded [OF assms, of flags "[]" "[]"] by (simp add: CBORDecoder_def)
  show ?thesis
    unfolding roundtrip_def by (subst e) (simp add: d)
qed


text \<open>
  C1. Each of the magnitudes 0, 1, 23, 24, 255, 256, 65535, 65536, \<open>2^32 - 1\<close>, \<open>2^32\<close>
  and \<open>2^64 - 1\<close> is encoded on a fresh encoder and decoded on a fresh decoder. The table
  gives, for each, the byte count the encoder returned and the triple the decoder
  returned. The magnitude comes back every time. The two byte counts agree except at 65536
  (the encoder returns 4, the decoder consumed 5) and at \<open>2^32\<close> (6 against 9).
\<close>

theorem roundtrip_magnitudes:
  "map (roundtrip Flag_none Major_unsignedInteger)
     [0, 1, 23, 24, 255, 256, 65535, 65536, 4294967295, 4294967296, 18446744073709551615] =
   [Some (1, 0, 0, 1), Some (1, 0, 1, 1), Some (1, 0, 23, 1), Some (2, 0, 24, 2),
    Some (2, 0, 255, 2), Some (3, 0, 256, 3), Some (3, 0, 65535, 3),
    Some (4, 0, 65536, 5), Some (5, 0, 4294967295, 5), Some (6, 0, 4294967296, 9),
    Some (9, 0, 18446744073709551615, 9)]"
proof -
  have r: "roundtrip Flag_none Major_unsignedInteger v =
           Some (1 + get_byte_length v, 0, v,
                 if v < 24 then 1 else 1 + int (emitted_width 0 v []))"
    if "0 \<le> v" "v < 2 ^ 64" for v
    using roundtrip_eq [of 0 v Flag_none] that by (simp add: Major_unsignedInteger_def)
  show ?thesis
    by (simp add: r byte_length_small byte_length_1 byte_length_2 byte_length_3 byte_length_4
        byte_length_5 byte_length_8 width_body_1 width_body_2 width_body_4 width_body_8)
qed

text \<open>
  C2. \<^verbatim>\<open>encodeTagAndValue\<close> returns 1 plus the computed byte length, not 1 plus the
  emitted width: for a magnitude whose computed length is 3 it returns 4 and appends 5
  bytes, and for one whose computed length is 5, 6 or 7 it returns less than 9 and appends
  9 bytes.
\<close>

theorem encodeTagAndValue_returns_computed_length:
  assumes "0 \<le> tag" "tag \<le> 224"
  shows "(65536 \<le> v \<and> v < 16777216 \<longrightarrow>
            fst (encodeTagAndValue tag v b) = Inr 4 \<and>
            length (snd (encodeTagAndValue tag v b)) = length b + 5) \<and>
         (4294967296 \<le> v \<and> v < 72057594037927936 \<longrightarrow>
            fst (encodeTagAndValue tag v b) = Inr (1 + get_byte_length v) \<and>
            1 + get_byte_length v < 9 \<and>
            length (snd (encodeTagAndValue tag v b)) = length b + 9)"
proof (intro conjI impI)
  assume v: "65536 \<le> v \<and> v < 16777216"
  then show "fst (encodeTagAndValue tag v b) = Inr 4"
    using assms by (simp add: encode_width4 byte_length_3)
  show "length (snd (encodeTagAndValue tag v b)) = length b + 5"
    using assms v by (simp add: encode_width4 length_be_bytes del: be_bytes.simps)
next
  assume v: "4294967296 \<le> v \<and> v < 72057594037927936"
  then show "fst (encodeTagAndValue tag v b) = Inr (1 + get_byte_length v)"
    using assms by (simp add: encode_width8)
  show "1 + get_byte_length v < 9"
    using v byte_length_le [of v 7] by simp
  show "length (snd (encodeTagAndValue tag v b)) = length b + 9"
    using assms v by (simp add: encode_width8 length_be_bytes del: be_bytes.simps)
qed

theorem encodeTagAndValue_returns_computed_length_witness:
  "(0::int) \<le> 0 \<and> (0::int) \<le> 224 \<and>
   fst (encodeTagAndValue 0 65536 []) = Inr 4 \<and>
   length (snd (encodeTagAndValue 0 65536 [])) = 5 \<and>
   fst (encodeTagAndValue 0 4294967296 []) = Inr 6 \<and>
   length (snd (encodeTagAndValue 0 4294967296 [])) = 9"
  using encodeTagAndValue_returns_computed_length [of 0 65536 "[]"]
    encodeTagAndValue_returns_computed_length [of 0 4294967296 "[]"]
    byte_length_5 [of 4294967296]
  by simp

text \<open>
  C3. When \<^verbatim>\<open>decodeTagAndValue\<close> returns a triple, its third component is 1 on the inline
  path, which is the number of bytes consumed; on the paths that read 1, 2, 4 or 8 bytes
  it is the cursor after the call, which is the number of bytes consumed only when the
  call started at cursor 0.
\<close>

theorem decodeTagAndValue_third_component:
  assumes "decodeTagAndValue flags d = (Inr (tag, v, n), d')"
  shows "(uint (buf d ! pos d) AND 31 < 24 \<longrightarrow> n = 1 \<and> pos d' = pos d + 1) \<and>
         (24 \<le> uint (buf d ! pos d) AND 31 \<longrightarrow>
            n = int (pos d') \<and>
            pos d' = pos d + 1 + read_width (uint (buf d ! pos d) AND 31))"
proof -
  let ?a = "uint (buf d ! pos d) AND 31"
  consider "pos d = length (buf d)" | "length (buf d) < pos d"
    | "pos d < length (buf d)" "?a < 24"
    | "pos d < length (buf d)" "27 < ?a"
    | "pos d < length (buf d)" "24 \<le> ?a" "?a \<le> 27" "length (buf d) < pos d + 1 + read_width ?a"
    | "pos d < length (buf d)" "24 \<le> ?a" "?a \<le> 27" "pos d + 1 + read_width ?a \<le> length (buf d)"
    by linarith
  then show ?thesis
  proof cases
    case 1
    then show ?thesis using assms by (simp add: decode_at_end)
  next
    case 2
    then show ?thesis using assms by (simp add: decode_beyond)
  next
    case 3
    then show ?thesis using assms by (auto simp add: decode_inline)
  next
    case 4
    then show ?thesis using assms by (simp add: decode_bad)
  next
    case 5
    then show ?thesis using assms by (simp add: decode_short)
  next
    case 6
    then show ?thesis
      using assms by (auto simp add: decode_multi check_minimal_def split: if_splits)
  qed
qed

theorem decodeTagAndValue_third_component_witness:
  "decodeTagAndValue Flag_none (CBORDecoder [0x00, 0x18, 0x18]) =
     (Inr (0, 0, 1), \<lparr>buf = [0x00, 0x18, 0x18], pos = 1\<rparr>) \<and>
   decodeTagAndValue Flag_none \<lparr>buf = [0x00, 0x18, 0x18], pos = 1\<rparr> =
     (Inr (0, 24, 3), \<lparr>buf = [0x00, 0x18, 0x18], pos = 3\<rparr>) \<and>
   (3::int) = int (pos \<lparr>buf = [0x00 :: byte, 0x18, 0x18], pos = 3\<rparr>) \<and>
   pos \<lparr>buf = [0x00 :: byte, 0x18, 0x18], pos = 3\<rparr> = 1 + 1 + read_width 24"
proof -
  have a: "decodeTagAndValue Flag_none (CBORDecoder [0x00, 0x18, 0x18]) =
      (Inr (0, 0, 1), \<lparr>buf = [0x00, 0x18, 0x18], pos = 1\<rparr>)"
    using decode_inline [of "CBORDecoder [0x00, 0x18, 0x18]" Flag_none]
    by (simp add: CBORDecoder_def)
  have b: "decodeTagAndValue Flag_none \<lparr>buf = [0x00, 0x18, 0x18], pos = 1\<rparr> =
      (Inr (0, 24, 3), \<lparr>buf = [0x00, 0x18, 0x18], pos = 3\<rparr>)"
    using decode_read1 [of "\<lparr>buf = [0x00, 0x18, 0x18], pos = 1\<rparr>" Flag_none]
    by (simp add: check_minimal_def Flag_none_def)
  have c: "(3::int) = int (pos \<lparr>buf = [0x00 :: byte, 0x18, 0x18], pos = 3\<rparr>) \<and>
      pos \<lparr>buf = [0x00 :: byte, 0x18, 0x18], pos = 3\<rparr> = 1 + 1 + read_width 24"
    using decodeTagAndValue_third_component [OF b] by (simp add: read_width_def)
  show ?thesis
    using a b c by blast
qed

text \<open>
  C7. \<^verbatim>\<open>encodeText\<close> raises on every text string and every buffer: after the header it
  hands a \<^verbatim>\<open>bytes\<close> object to \<^verbatim>\<open>bytearray.append\<close>.
\<close>

theorem encodeText_raises: "\<exists>e. fst (encodeText v b) = Inl e"
proof -
  obtain r b' where h: "encodeTagAndValue Major_textString (int (length v)) b = (r, b')"
    by (cases "encodeTagAndValue Major_textString (int (length v)) b")
  show ?thesis
  proof (cases r)
    case (Inl e)
    then show ?thesis using h by (simp add: encodeText_def bind_def Let_def)
  next
    case (Inr len)
    then show ?thesis
      using h by (cases "utf8 v") (simp_all add: encodeText_def bind_def Let_def)
  qed
qed

text \<open>
  C8. When the header decodes, \<^verbatim>\<open>decodeInteger\<close> returns the magnitude for the tag
  unsignedInteger, \<open>-1 - magnitude\<close> for negativeInteger, each with the third component
  of the header decoder, and for every other tag it returns \<^verbatim>\<open>None\<close> and raises nothing.
\<close>

theorem decodeInteger_result:
  assumes "decodeTagAndValue flags d = (Inr (tag, v, n), d')"
  shows "decodeInteger flags d =
         (Inr (if tag = Major_unsignedInteger then Some (v, n)
               else if tag = Major_negativeInteger then Some (- 1 - v, n)
               else None), d')"
  using assms by (simp add: decodeInteger_def bind_def return_def)

theorem decodeInteger_result_witness:
  "decodeTagAndValue Flag_none (CBORDecoder [0x40]) =
     (Inr (Major_byteString, 0, 1), \<lparr>buf = [0x40], pos = 1\<rparr>) \<and>
   decodeInteger Flag_none (CBORDecoder [0x40]) = (Inr None, \<lparr>buf = [0x40], pos = 1\<rparr>) \<and>
   decodeUnsigned Flag_none (CBORDecoder [0x40]) =
     (Inl (ExpectedUnsignedInteger Major_byteString), \<lparr>buf = [0x40], pos = 1\<rparr>)"
proof -
  have a: "decodeTagAndValue Flag_none (CBORDecoder [0x40]) =
      (Inr (Major_byteString, 0, 1), \<lparr>buf = [0x40], pos = 1\<rparr>)"
    using decode_inline [of "CBORDecoder [0x40]" Flag_none]
    by (simp add: CBORDecoder_def Major_byteString_def)
  have b: "decodeInteger Flag_none (CBORDecoder [0x40]) =
      (Inr None, \<lparr>buf = [0x40], pos = 1\<rparr>)"
    using decodeInteger_result [OF a] by (simp add: tag_defs)
  have c: "decodeUnsigned Flag_none (CBORDecoder [0x40]) =
      (Inl (ExpectedUnsignedInteger Major_byteString), \<lparr>buf = [0x40], pos = 1\<rparr>)"
    by (simp add: decodeUnsigned_def bind_def a raise_def) (simp add: tag_defs)
  show ?thesis using a b c by simp
qed

lemma major_tag_facts:
  "0 \<le> Major_map" "Major_map \<le> 224" "Major_map mod 32 = 0"
  "0 \<le> Major_array" "Major_array \<le> 224" "Major_array mod 32 = 0"
  "0 \<le> Major_byteString" "Major_byteString \<le> 224" "Major_byteString mod 32 = 0"
  "0 \<le> Major_semantic" "Major_semantic \<le> 224" "Major_semantic mod 32 = 0"
  by (simp_all add: tag_defs)

text \<open>
  C6. For every count below \<open>2^64\<close>, \<^verbatim>\<open>decodeMapSize\<close> on the bytes of
  \<^verbatim>\<open>encodeMapSize\<close> raises the type mismatch naming the map tag, and on the bytes of
  \<^verbatim>\<open>encodeArraySize\<close> the type mismatch naming the array tag;
  \<^verbatim>\<open>decodeArraySize\<close> on the bytes of \<^verbatim>\<open>encodeArraySize\<close> returns the count.
\<close>

theorem decodeMapSize_of_encoded_size:
  assumes "0 \<le> c" "c < 2 ^ 64"
  shows "fst (decodeMapSize flags (CBORDecoder (snd (encodeMapSize c [])))) =
           Inl (ExpectedMap Major_map) \<and>
         fst (decodeMapSize flags (CBORDecoder (snd (encodeArraySize c [])))) =
           Inl (ExpectedMap Major_array) \<and>
         (\<exists>n. fst (decodeArraySize flags (CBORDecoder (snd (encodeArraySize c [])))) =
           Inr (c, n))"
proof -
  have m: "decodeTagAndValue flags (CBORDecoder (snd (encodeTagAndValue Major_map c []))) =
      (Inr (Major_map, c,
            if c < 24 then 1 else int (1 + emitted_width Major_map c [])),
       \<lparr>buf = snd (encodeTagAndValue Major_map c []),
        pos = 1 + emitted_width Major_map c []\<rparr>)"
    using decode_encoded [OF major_tag_facts(1-3) assms, of flags "[]" "[]"]
    by (simp add: CBORDecoder_def)
  have a: "decodeTagAndValue flags (CBORDecoder (snd (encodeTagAndValue Major_array c []))) =
      (Inr (Major_array, c,
            if c < 24 then 1 else int (1 + emitted_width Major_array c [])),
       \<lparr>buf = snd (encodeTagAndValue Major_array c []),
        pos = 1 + emitted_width Major_array c []\<rparr>)"
    using decode_encoded [OF major_tag_facts(4-6) assms, of flags "[]" "[]"]
    by (simp add: CBORDecoder_def)
  have ne: "Major_map \<noteq> Major_mask" "Major_array \<noteq> Major_mask"
    by (simp_all add: tag_defs)
  show ?thesis
    unfolding decodeMapSize_def decodeArraySize_def encodeMapSize_def encodeArraySize_def
      bind_def m a
    using ne by (simp add: raise_def return_def)
qed

theorem decodeMapSize_of_encoded_size_witness:
  "(0::int) \<le> 0 \<and> (0::int) < 2 ^ 64 \<and>
   fst (decodeMapSize Flag_none (CBORDecoder (snd (encodeMapSize 0 [])))) =
     Inl (ExpectedMap 160) \<and>
   fst (decodeMapSize Flag_none (CBORDecoder (snd (encodeArraySize 0 [])))) =
     Inl (ExpectedMap 128)"
  using decodeMapSize_of_encoded_size [of 0 Flag_none]
  by (simp add: Major_map_def Major_array_def)

subsection \<open>Embedded bytes\<close>

lemma decodeBytes_encoded:
  assumes "int (length p) < 2 ^ 64"
  shows "decodeBytes flags
           \<lparr>buf = pre @ snd (encodeTagAndValue Major_byteString (int (length p)) []) @ p,
            pos = length pre\<rparr> =
         (Inr (p, (if length p < 24 then 1
                   else int (length pre +
                     length (snd (encodeTagAndValue Major_byteString (int (length p)) [])))) +
                  int (length p)),
          \<lparr>buf = pre @ snd (encodeTagAndValue Major_byteString (int (length p)) []) @ p,
           pos = length pre +
             length (snd (encodeTagAndValue Major_byteString (int (length p)) [])) +
             length p\<rparr>)"
proof -
  let ?h = "snd (encodeTagAndValue Major_byteString (int (length p)) [])"
  let ?w = "emitted_width Major_byteString (int (length p)) []"
  have len: "length ?h = 1 + ?w"
    using encode_result(2) [OF major_tag_facts(7,8) _ assms] by simp
  have d: "decodeTagAndValue flags \<lparr>buf = pre @ ?h @ p, pos = length pre\<rparr> =
      (Inr (Major_byteString, int (length p),
            if int (length p) < 24 then 1 else int (length pre + 1 + ?w)),
       \<lparr>buf = pre @ ?h @ p, pos = length pre + 1 + ?w\<rparr>)"
    using decode_encoded [OF major_tag_facts(7-9) _ assms, of flags pre p] by simp
  show ?thesis
    unfolding decodeBytes_def bind_def d by (simp add: len Let_def)
qed

lemma encodeEncodedBytes_bytes:
  assumes "int (length p) < 2 ^ 64"
  shows "snd (encodeEncodedBytes p []) =
         snd (encodeTagAndValue Major_semantic Minor_cborEncodedData []) @
         snd (encodeTagAndValue Major_byteString (int (length p)) []) @ p"
proof -
  have c: "(0::int) \<le> Minor_cborEncodedData" "Minor_cborEncodedData < 2 ^ 64"
    by (simp_all add: tag_defs)
  have s: "encodeTagAndValue Major_semantic Minor_cborEncodedData [] =
      (Inr (1 + get_byte_length Minor_cborEncodedData),
       snd (encodeTagAndValue Major_semantic Minor_cborEncodedData []))"
    using encode_result(1) [OF major_tag_facts(10,11) c, of "[]"] by simp
  define h where "h = snd (encodeTagAndValue Major_byteString (int (length p)) [])"
  define t where "t = snd (encodeTagAndValue Major_semantic Minor_cborEncodedData [])"
  have b: "encodeTagAndValue Major_byteString (int (length p)) x =
      (Inr (1 + get_byte_length (int (length p))), x @ h)" for x
    unfolding h_def using encode_result(1) [OF major_tag_facts(7,8) _ assms, of x] by simp
  have "snd (encodeEncodedBytes p []) = t @ h @ p"
    unfolding encodeEncodedBytes_def encodeBytes_def bind_def
    by (subst s) (simp add: b return_def t_def [symmetric])
  then show ?thesis
    unfolding h_def t_def .
qed

text \<open>
  C10. For every payload shorter than \<open>2^64\<close> bytes, \<^verbatim>\<open>decodeEncodedBytes\<close> on the bytes
  of \<^verbatim>\<open>encodeEncodedBytes\<close> returns the payload and leaves the cursor at the end of the
  buffer. The total it reports is the length of the buffer (outer header, inner header
  and payload) for a payload shorter than 24 bytes, and 2 more than that for a longer
  one.
\<close>

theorem decodeEncodedBytes_of_encoded:
  assumes "int (length p) < 2 ^ 64"
  shows "decodeEncodedBytes flags (CBORDecoder (snd (encodeEncodedBytes p []))) =
         (Inr (p, int (length (snd (encodeEncodedBytes p []))) +
                  (if length p < 24 then 0 else 2)),
          \<lparr>buf = snd (encodeEncodedBytes p []),
           pos = length (snd (encodeEncodedBytes p []))\<rparr>)"
proof -
  let ?s = "snd (encodeTagAndValue Major_semantic Minor_cborEncodedData [])"
  let ?h = "snd (encodeTagAndValue Major_byteString (int (length p)) [])"
  have c: "(0::int) \<le> Minor_cborEncodedData" "Minor_cborEncodedData < 2 ^ 64"
    by (simp_all add: tag_defs)
  have w: "emitted_width Major_semantic Minor_cborEncodedData [] = 1"
    using width_body_1 [OF major_tag_facts(10,11), of Minor_cborEncodedData "[]"]
    by (simp add: Minor_cborEncodedData_def)
  have ls: "length ?s = 2"
    using encode_result(2) [OF major_tag_facts(10,11) c] w by simp
  have bytes: "snd (encodeEncodedBytes p []) = ?s @ ?h @ p"
    using assms by (rule encodeEncodedBytes_bytes)
  have d1: "decodeTagAndValue flags \<lparr>buf = ?s @ ?h @ p, pos = 0\<rparr> =
      (Inr (Major_semantic, Minor_cborEncodedData, 2), \<lparr>buf = ?s @ ?h @ p, pos = 2\<rparr>)"
    using decode_encoded [OF major_tag_facts(10-12) c, of flags "[]" "?h @ p"] w
    by (simp add: Minor_cborEncodedData_def)
  have d2: "decodeBytes flags \<lparr>buf = ?s @ ?h @ p, pos = 2\<rparr> =
      (Inr (p, (if length p < 24 then 1 else int (2 + length ?h)) + int (length p)),
       \<lparr>buf = ?s @ ?h @ p, pos = 2 + length ?h + length p\<rparr>)"
    using decodeBytes_encoded [OF assms, of flags ?s] ls by simp
  have lh: "length p < 24 \<Longrightarrow> length ?h = 1"
    using encode_result(2) [OF major_tag_facts(7,8) _ assms]
      width_body_inline [OF major_tag_facts(7,8), of "int (length p)" "[]"] by simp
  show ?thesis
    unfolding bytes CBORDecoder_def decodeEncodedBytes_def bind_def d1
    using lh by (simp add: d2 return_def ls)
qed


theorem decodeEncodedBytes_of_encoded_witness:
  "int (length (replicate 24 (0::byte))) < 2 ^ 64 \<and>
   snd (encodeEncodedBytes (replicate 24 0) []) = [0xd8, 0x18, 0x58, 0x18] @ replicate 24 0 \<and>
   length (snd (encodeEncodedBytes (replicate 24 0) [])) = 28 \<and>
   fst (decodeEncodedBytes Flag_none (CBORDecoder (snd (encodeEncodedBytes (replicate 24 0) [])))) =
     Inr (replicate 24 0, 30)"
proof -
  have l: "int (length (replicate 24 (0::byte))) < 2 ^ 64"
    by simp
  have s: "snd (encodeTagAndValue Major_semantic Minor_cborEncodedData []) = [0xd8, 0x18]"
    using encode_width1 [of Major_semantic 24 "[]"] by (simp add: tag_defs)
  have h: "snd (encodeTagAndValue Major_byteString 24 []) = [0x58, 0x18]"
    using encode_width1 [of Major_byteString 24 "[]"] by (simp add: tag_defs)
  have bytes: "snd (encodeEncodedBytes (replicate 24 0) []) =
      [0xd8, 0x18, 0x58, 0x18] @ replicate 24 0"
    using encodeEncodedBytes_bytes [OF l] by (simp add: s h)
  have len: "length (snd (encodeEncodedBytes (replicate 24 0) [])) = 28"
    unfolding bytes by simp
  have "fst (decodeEncodedBytes Flag_none
               (CBORDecoder (snd (encodeEncodedBytes (replicate 24 0) [])))) =
        Inr (replicate 24 0, 30)"
    using decodeEncodedBytes_of_encoded [OF l, of Flag_none] len by simp
  then show ?thesis
    using l bytes len by blast
qed

end
